theory Spec2Isabelle
  imports Main
begin

section \<open>Exceptions\<close>

text \<open>
  The exceptions that can leave the methods of \<open>S3Storage\<close>. A raise is the left
  summand of the result. \<open>ClientError\<close> carries \<open>e.response["Error"]["Code"]\<close>;
  \<open>TransportFailure\<close> stands for every exception of the client library that is not a
  \<open>ClientError\<close> (an unreachable endpoint, a timeout, missing credentials at request
  time).
\<close>

datatype exn =
    AssertionError string
  | ValueError string
  | ClientError string
  | TransportFailure string

section \<open>The part of \<open>pathlib\<close> that \<open>s3.py\<close> uses\<close>

text \<open>
  \<open>Path(name)\<close> on a POSIX host, for one \<open>str\<close> argument, as CPython 3.11 parses
  it: \<open>_PosixFlavour.splitroot\<close>, \<open>_Flavour.parse_parts\<close>, and the properties
  \<open>name\<close>, \<open>stem\<close>, \<open>suffix\<close>, the method \<open>with_name\<close> and \<open>__str__\<close> of
  \<open>PurePath\<close>. There is no drive and no alternative separator on POSIX.
\<close>

definition sep :: char where
  "sep = CHR ''/''"

text \<open>\<open>s.split(c)\<close> for a one-character separator: never an empty list.\<close>

fun split_chr :: "char \<Rightarrow> string \<Rightarrow> string list" where
  "split_chr c [] = [[]]"
| "split_chr c (x # xs) =
     (if x = c then [] # split_chr c xs
      else (case split_chr c xs of
              [] \<Rightarrow> [[x]]
            | w # ws \<Rightarrow> (x # w) # ws))"

text \<open>\<open>c.join(parts)\<close>.\<close>

fun join_chr :: "char \<Rightarrow> string list \<Rightarrow> string" where
  "join_chr c [] = []"
| "join_chr c [p] = p"
| "join_chr c (p # q # ps) = p @ c # join_chr c (q # ps)"

text \<open>\<open>splitroot(part)\<close>, without the drive, which is always empty: root and rest.\<close>

definition splitroot :: "string \<Rightarrow> string \<times> string" where
  "splitroot part =
     (if part \<noteq> [] \<and> hd part = sep then
        (let stripped_part = dropWhile (\<lambda>c. c = sep) part in
         if length part - length stripped_part = 2 then ([sep, sep], stripped_part)
         else ([sep], stripped_part))
      else ([], part))"

text \<open>
  A parsed path: \<open>_root\<close> and \<open>_parts\<close>. As in CPython 3.11, a non-empty root is
  itself the first element of \<open>_parts\<close>.
\<close>

record pure_path =
  root :: string
  parts :: "string list"

text \<open>
  \<open>parse_parts((name,))\<close>: the loop over the reversed argument tuple runs once; an
  empty argument is skipped, so nothing is parsed.
\<close>

definition parse_parts :: "string \<Rightarrow> pure_path" where
  "parse_parts part =
     (if part = [] then \<lparr>root = [], parts = []\<rparr>
      else
        (let (rt, rel) = splitroot part;
             parsed =
               (if sep \<in> set rel
                then filter (\<lambda>x. x \<noteq> [] \<and> x \<noteq> ''.'') (split_chr sep rel)
                else (if rel \<noteq> [] \<and> rel \<noteq> ''.'' then [rel] else []))
         in \<lparr>root = rt, parts = (if rt \<noteq> [] then rt # parsed else parsed)\<rparr>))"

abbreviation Path :: "string \<Rightarrow> pure_path" where
  "Path name \<equiv> parse_parts name"

text \<open>\<open>PurePath.name\<close>: the final component, or the empty string.\<close>

definition path_name :: "pure_path \<Rightarrow> string" where
  "path_name p =
     (if length (parts p) = (if root p \<noteq> [] then 1 else 0) then []
      else last (parts p))"

text \<open>\<open>s.rfind(c)\<close>: the highest index of \<open>c\<close>, or -1.\<close>

fun rfind :: "char \<Rightarrow> string \<Rightarrow> int" where
  "rfind c [] = -1"
| "rfind c (x # xs) =
     (let r = rfind c xs in
      if r \<noteq> -1 then r + 1 else if x = c then 0 else -1)"

definition path_suffix :: "pure_path \<Rightarrow> string" where
  "path_suffix p =
     (let name = path_name p; i = rfind (CHR ''.'') name in
      if 0 < i \<and> i < int (length name) - 1 then drop (nat i) name else [])"

definition path_stem :: "pure_path \<Rightarrow> string" where
  "path_stem p =
     (let name = path_name p; i = rfind (CHR ''.'') name in
      if 0 < i \<and> i < int (length name) - 1 then take (nat i) name else name)"

text \<open>
  \<open>with_name(name)\<close>: refuses a path without a name and a name that is empty, ends
  with the separator, has a root, or does not parse to exactly one part. The new name
  replaces the last part unparsed.
\<close>

definition with_name :: "pure_path \<Rightarrow> string \<Rightarrow> exn + pure_path" where
  "with_name p name =
     (if path_name p = [] then Inl (ValueError ''has an empty name'')
      else
        (let q = parse_parts name in
         if name = [] \<or> last name = sep \<or> root q \<noteq> [] \<or> length (parts q) \<noteq> 1
         then Inl (ValueError ''Invalid name'')
         else Inr \<lparr>root = root p, parts = butlast (parts p) @ [name]\<rparr>))"

text \<open>\<open>str(path)\<close>: \<open>_format_parsed_parts(...) or '.'\<close>.\<close>

definition path_str :: "pure_path \<Rightarrow> string" where
  "path_str p =
     (let s = (if root p \<noteq> [] then root p @ join_chr sep (tl (parts p))
               else join_chr sep (parts p))
      in if s = [] then ''.'' else s)"

section \<open>Name normalisation\<close>

text \<open>
  \<open>S3Storage.get_name\<close>. The helper \<open>secure_filename\<close> of
  \<open>sqlalchemy_storages.utils\<close> is not part of the sources at hand; it is the
  parameter \<open>sf\<close>.
\<close>

definition get_name :: "(string \<Rightarrow> string) \<Rightarrow> string \<Rightarrow> exn + string" where
  "get_name sf name =
     (let filename = sf (path_name (Path name)) in
      case with_name (Path name) filename of
        Inl e \<Rightarrow> Inl e
      | Inr p \<Rightarrow> Inr (path_str p))"

text \<open>
  Modelled from the spec: \<open>secure_filename\<close> of \<open>sqlalchemy_storages.utils\<close>, which
  the sources at hand import but do not contain. Section 4.1 of the specification:
  sanitize the leaf by stripping the characters unsafe for storage keys and URLs
  (non-ASCII, path separators, control characters, leading dots and dashes); once the
  separators are stripped none is left to collapse; an empty result is returned as it
  is, and \<open>with_name\<close> rejects it.
\<close>

definition unsafe_char :: "char \<Rightarrow> bool" where
  "unsafe_char c =
     (let n = (of_char c :: nat) in
      128 \<le> n \<or> n < 32 \<or> n = 127 \<or> c = CHR ''/'' \<or> c = CHR 0x5C)"

definition leading_junk :: "char \<Rightarrow> bool" where
  "leading_junk c = (c = CHR ''.'' \<or> c = CHR ''-'')"

definition secure_filename :: "string \<Rightarrow> string" where
  "secure_filename s = dropWhile leading_junk (filter (\<lambda>c. \<not> unsafe_char c) s)"

section \<open>The S3 client\<close>

text \<open>
  \<open>boto3\<close> is an external library. Its client is modelled by the service it talks
  to: the objects stored under (bucket, key), and the requests that the service or the
  transport answers with an exception. \<open>head_object\<close> on a key without an object
  raises \<open>ClientError\<close> with code 404; \<open>upload_fileobj\<close> stores the object,
  replacing what was there.
\<close>

record s3_object =
  Body :: string
  ContentType :: string
  ACL :: string

record s3_service =
  objects :: "string \<times> string \<Rightarrow> s3_object option"
  failure :: "string \<times> string \<Rightarrow> exn option"

definition head_object :: "s3_service \<Rightarrow> string \<Rightarrow> string \<Rightarrow> exn + nat" where
  "head_object svc Bucket Key =
     (case failure svc (Bucket, Key) of
        Some e \<Rightarrow> Inl e
      | None \<Rightarrow>
          (case objects svc (Bucket, Key) of
             None \<Rightarrow> Inl (ClientError ''404'')
           | Some ob \<Rightarrow> Inr (length (Body ob))))"

definition upload_fileobj ::
  "s3_service \<Rightarrow> string \<Rightarrow> string \<Rightarrow> string \<Rightarrow> string \<Rightarrow> string \<Rightarrow> exn + s3_service" where
  "upload_fileobj svc data Bucket Key acl content_type =
     (case failure svc (Bucket, Key) of
        Some e \<Rightarrow> Inl e
      | None \<Rightarrow>
          Inr (svc\<lparr>objects := (objects svc)((Bucket, Key) \<mapsto>
                 \<lparr>Body = data, ContentType = content_type, ACL = acl\<rparr>)\<rparr>))"

definition delete_object :: "s3_service \<Rightarrow> string \<Rightarrow> string \<Rightarrow> exn + s3_service" where
  "delete_object svc Bucket Key =
     (case failure svc (Bucket, Key) of
        Some e \<Rightarrow> Inl e
      | None \<Rightarrow> Inr (svc\<lparr>objects := (objects svc)((Bucket, Key) := None)\<rparr>))"

text \<open>A binary file object: its bytes and the read position.\<close>

record binary_io =
  content :: string
  pos :: nat

definition seek :: "binary_io \<Rightarrow> nat \<Rightarrow> binary_io" where
  "seek file offset = file\<lparr>pos := offset\<rparr>"

definition read_rest :: "binary_io \<Rightarrow> string" where
  "read_rest file = drop (pos file) (content file)"

section \<open>The storage backend\<close>

text \<open>The class attributes of \<open>S3Storage\<close>, which a subclass overrides.\<close>

record s3_config =
  AWS_ACCESS_KEY_ID :: string
  AWS_SECRET_ACCESS_KEY :: string
  AWS_S3_BUCKET_NAME :: string
  AWS_S3_ENDPOINT_URL :: string
  AWS_S3_USE_SSL :: bool
  AWS_DEFAULT_ACL :: string
  AWS_QUERYSTRING_AUTH :: bool
  AWS_S3_CUSTOM_DOMAIN :: string

text \<open>An instance: the class attributes and what \<open>__init__\<close> sets.\<close>

record s3_storage = s3_config +
  http_scheme :: string
  url :: string
  s3 :: s3_service

definition default_content_type :: string where
  "default_content_type = ''application/octet-stream''"

text \<open>\<open>s.startswith(p)\<close>.\<close>

definition startswith :: "string \<Rightarrow> string \<Rightarrow> bool" where
  "startswith s p = (take (length p) s = p)"

text \<open>The keyword arguments of \<open>boto3.client("s3", ...)\<close>.\<close>

record client_args =
  endpoint_url :: string
  use_ssl :: bool
  aws_access_key_id :: string
  aws_secret_access_key :: string

text \<open>
  \<open>__init__\<close>. The module-level name \<open>boto3\<close> is \<open>None\<close> when the import failed,
  and otherwise gives the client factory, which may raise. The two \<open>assert\<close>
  statements are modelled as executed (no \<open>-O\<close>); the first message is written
  without its quotation marks.
\<close>

definition S3Storage_init ::
  "(client_args \<Rightarrow> exn + s3_service) option \<Rightarrow> s3_config \<Rightarrow> exn + s3_storage" where
  "S3Storage_init boto3 cfg =
     (case boto3 of
        None \<Rightarrow> Inl (AssertionError ''boto3 is not installed'')
      | Some client \<Rightarrow>
          if startswith (AWS_S3_ENDPOINT_URL cfg) ''http''
          then Inl (AssertionError ''URL should not contain protocol'')
          else
            (let scheme = (if AWS_S3_USE_SSL cfg then ''https'' else ''http'');
                 u = scheme @ ''://'' @ AWS_S3_ENDPOINT_URL cfg
             in case client \<lparr>endpoint_url = u,
                              use_ssl = AWS_S3_USE_SSL cfg,
                              aws_access_key_id = AWS_ACCESS_KEY_ID cfg,
                              aws_secret_access_key = AWS_SECRET_ACCESS_KEY cfg\<rparr> of
                  Inl e \<Rightarrow> Inl e
                | Inr c \<Rightarrow>
                    Inr (s3_config.extend cfg
                           (s3_storage.fields scheme u c))))"

text \<open>\<open>get_size\<close>: the \<open>ContentLength\<close> of \<open>head_object\<close>; nothing is caught.\<close>

definition get_size :: "(string \<Rightarrow> string) \<Rightarrow> s3_storage \<Rightarrow> string \<Rightarrow> exn + nat" where
  "get_size sf self name =
     (case get_name sf name of
        Inl e \<Rightarrow> Inl e
      | Inr k \<Rightarrow> head_object (s3 self) (AWS_S3_BUCKET_NAME self) k)"

text \<open>
  \<open>S3Storage.write\<close> (the name \<open>write\<close> is taken by the outer syntax).
  \<open>mimetypes.guess_type\<close> is the parameter \<open>guess_type\<close> (the type of the pair it
  returns, \<open>None\<close> when it knows none); \<open>content_type or default\<close> also
  takes the default for an empty string. The result is the key and the instance
  with the service after the upload.
\<close>

definition storage_write ::
  "(string \<Rightarrow> string) \<Rightarrow> (string \<Rightarrow> string option) \<Rightarrow> s3_storage \<Rightarrow> binary_io \<Rightarrow> string
     \<Rightarrow> exn + string \<times> s3_storage" where
  "storage_write sf guess_type self file name =
     (let file = seek file 0 in
      case get_name sf name of
        Inl e \<Rightarrow> Inl e
      | Inr k \<Rightarrow>
          (let content_type =
                 (case guess_type k of
                    None \<Rightarrow> default_content_type
                  | Some t \<Rightarrow> if t = [] then default_content_type else t)
           in case upload_fileobj (s3 self) (read_rest file) (AWS_S3_BUCKET_NAME self) k
                     (AWS_DEFAULT_ACL self) content_type of
                Inl e \<Rightarrow> Inl e
              | Inr svc \<Rightarrow> Inr (k, self\<lparr>s3 := svc\<rparr>)))"

text \<open>\<open>delete\<close>.\<close>

definition delete :: "(string \<Rightarrow> string) \<Rightarrow> s3_storage \<Rightarrow> string \<Rightarrow> exn + s3_storage" where
  "delete sf self name =
     (case get_name sf name of
        Inl e \<Rightarrow> Inl e
      | Inr k \<Rightarrow>
          (case delete_object (s3 self) (AWS_S3_BUCKET_NAME self) k of
             Inl e \<Rightarrow> Inl e
           | Inr svc \<Rightarrow> Inr (self\<lparr>s3 := svc\<rparr>)))"

text \<open>
  \<open>_check_object_exists\<close>. Only \<open>ClientError\<close> is caught; after the handler, for a
  code other than 404, control falls through to \<open>return True\<close>.
\<close>

definition check_object_exists :: "s3_storage \<Rightarrow> string \<Rightarrow> exn + bool" where
  "check_object_exists self k =
     (case head_object (s3 self) (AWS_S3_BUCKET_NAME self) k of
        Inr _ \<Rightarrow> Inr True
      | Inl (ClientError code) \<Rightarrow> if code = ''404'' then Inr False else Inr True
      | Inl e \<Rightarrow> Inl e)"

section \<open>Collision resolution\<close>

text \<open>\<open>str(n)\<close> for a counter that starts at 0 and is only incremented.\<close>

definition digit_char :: "nat \<Rightarrow> char" where
  "digit_char d = char_of (48 + d)"

fun str_nat :: "nat \<Rightarrow> string" where
  "str_nat n = (if n < 10 then [digit_char n] else str_nat (n div 10) @ [digit_char (n mod 10)])"

declare str_nat.simps [simp del]

definition candidate :: "string \<Rightarrow> string \<Rightarrow> nat \<Rightarrow> string" where
  "candidate stem suffix counter = stem @ ''_'' @ str_nat counter @ suffix"

text \<open>
  The \<open>while\<close> loop of \<open>generate_new_filename\<close> on its variables \<open>counter\<close>,
  \<open>filename\<close> and \<open>key\<close>. It may run forever, which is the value \<open>None\<close>. The last
  argument is not in the source: it records the keys handed to
  \<open>_check_object_exists\<close> so far, and is returned with the result.
\<close>

partial_function (option) gnf_while ::
  "(string \<Rightarrow> string) \<Rightarrow> s3_storage \<Rightarrow> string \<Rightarrow> string \<Rightarrow> nat \<Rightarrow> string \<Rightarrow> string
     \<Rightarrow> string list \<Rightarrow> ((exn + string) \<times> string list) option" where
  "gnf_while sf self stem suffix counter filename k checked =
     (case check_object_exists self k of
        Inl e \<Rightarrow> Some (Inl e, checked @ [k])
      | Inr b \<Rightarrow>
          if b then
            (let counter = counter + 1;
                 filename = candidate stem suffix counter
             in case get_name sf filename of
                  Inl e \<Rightarrow> Some (Inl e, checked @ [k])
                | Inr k' \<Rightarrow> gnf_while sf self stem suffix counter filename k' (checked @ [k]))
          else Some (Inr filename, checked @ [k]))"

definition generate_new_filename ::
  "(string \<Rightarrow> string) \<Rightarrow> s3_storage \<Rightarrow> string \<Rightarrow> ((exn + string) \<times> string list) option" where
  "generate_new_filename sf self filename =
     (case get_name sf filename of
        Inl e \<Rightarrow> Some (Inl e, [])
      | Inr k \<Rightarrow>
          gnf_while sf self (path_stem (Path filename)) (path_suffix (Path filename))
            0 filename k [])"

declare gnf_while.simps [code]

section \<open>Vocabulary of the properties\<close>

text \<open>
  The name that round \<open>n\<close> of \<open>generate_new_filename\<close> tries: the input itself in
  round 0, then the candidate with counter \<open>n\<close>; its normalised key; and what the
  existence check says about that key.
\<close>

definition nth_name :: "string \<Rightarrow> nat \<Rightarrow> string" where
  "nth_name x n =
     (if n = 0 then x else candidate (path_stem (Path x)) (path_suffix (Path x)) n)"

definition nth_key :: "(string \<Rightarrow> string) \<Rightarrow> string \<Rightarrow> nat \<Rightarrow> exn + string" where
  "nth_key sf x n = get_name sf (nth_name x n)"

definition the_key :: "(string \<Rightarrow> string) \<Rightarrow> string \<Rightarrow> nat \<Rightarrow> string" where
  "the_key sf x n = (case nth_key sf x n of Inl e \<Rightarrow> [] | Inr k \<Rightarrow> k)"

definition taken :: "(string \<Rightarrow> string) \<Rightarrow> s3_storage \<Rightarrow> string \<Rightarrow> nat \<Rightarrow> bool" where
  "taken sf self x n =
     (case nth_key sf x n of
        Inl e \<Rightarrow> False
      | Inr k \<Rightarrow> check_object_exists self k = Inr True)"

definition absent :: "(string \<Rightarrow> string) \<Rightarrow> s3_storage \<Rightarrow> string \<Rightarrow> nat \<Rightarrow> bool" where
  "absent sf self x n =
     (case nth_key sf x n of
        Inl e \<Rightarrow> False
      | Inr k \<Rightarrow> check_object_exists self k = Inr False)"

text \<open>
  The segments of a name between separators that path parsing keeps (the empty ones
  and \<open>.\<close> are dropped), and the directory prefix among them: all but the last.
\<close>

definition segments :: "string \<Rightarrow> string list" where
  "segments x = filter (\<lambda>s. s \<noteq> [] \<and> s \<noteq> ''.'') (split_chr sep x)"

definition dir_segments :: "string \<Rightarrow> string list" where
  "dir_segments x = butlast (segments x)"

definition traversal_free :: "string \<Rightarrow> bool" where
  "traversal_free k = (''..'' \<notin> set (split_chr sep k))"

definition safe_chars :: "string \<Rightarrow> bool" where
  "safe_chars s = list_all (\<lambda>c. \<not> unsafe_char c) s"

text \<open>
  The names that \<open>with_name\<close> accepts, and the segments that path parsing yields:
  not empty, not \<open>.\<close>, without separator.
\<close>

definition valid_name :: "string \<Rightarrow> bool" where
  "valid_name f =
     (f \<noteq> [] \<and> last f \<noteq> sep \<and> root (Path f) = [] \<and> length (parts (Path f)) = 1)"

definition wf_seg :: "string \<Rightarrow> bool" where
  "wf_seg s = (s \<noteq> [] \<and> s \<noteq> ''.'' \<and> sep \<notin> set s)"

section \<open>Concrete instances\<close>

definition demo_config :: s3_config where
  "demo_config =
     \<lparr>AWS_ACCESS_KEY_ID = ''AKIDEXAMPLE'', AWS_SECRET_ACCESS_KEY = ''secret'',
      AWS_S3_BUCKET_NAME = ''media'', AWS_S3_ENDPOINT_URL = ''s3.example.com'',
      AWS_S3_USE_SSL = True, AWS_DEFAULT_ACL = ''private'',
      AWS_QUERYSTRING_AUTH = False, AWS_S3_CUSTOM_DOMAIN = []\<rparr>"

text \<open>A service that holds one-byte objects under the given keys of bucket \<open>media\<close>
  and answers the requests for the keys of \<open>bad\<close> with the exception \<open>e\<close>.\<close>

definition demo_service :: "string list \<Rightarrow> string list \<Rightarrow> exn \<Rightarrow> s3_service" where
  "demo_service ks bad e =
     \<lparr>objects = (\<lambda>(b, k). if b = ''media'' \<and> k \<in> set ks
                          then Some \<lparr>Body = ''x'', ContentType = ''image/png'', ACL = ''private''\<rparr>
                          else None),
      failure = (\<lambda>(b, k). if k \<in> set bad then Some e else None)\<rparr>"

definition demo_storage :: "string list \<Rightarrow> string list \<Rightarrow> exn \<Rightarrow> s3_storage" where
  "demo_storage ks bad e =
     s3_config.extend demo_config
       (s3_storage.fields ''https'' ''https://s3.example.com'' (demo_service ks bad e))"

text \<open>A client factory that accepts every argument record.\<close>

definition demo_client :: "client_args \<Rightarrow> exn + s3_service" where
  "demo_client args = Inr (demo_service [] [] (ClientError ''500''))"

text \<open>A guesser of content types that knows one extension.\<close>

definition demo_guess_type :: "string \<Rightarrow> string option" where
  "demo_guess_type k = (if path_suffix (Path k) = ''.png'' then Some ''image/png'' else None)"

text \<open>A storage whose service refuses every request: an authorisation failure.\<close>

definition forbidden_storage :: s3_storage where
  "forbidden_storage =
     s3_config.extend demo_config
       (s3_storage.fields ''https'' ''https://s3.example.com''
          \<lparr>objects = (\<lambda>_. None), failure = (\<lambda>_. Some (ClientError ''403''))\<rparr>)"

text \<open>The argument record that \<open>__init__\<close> hands to \<open>boto3.client\<close>.\<close>

definition client_args_of :: "s3_config \<Rightarrow> client_args" where
  "client_args_of cfg =
     \<lparr>endpoint_url = (if AWS_S3_USE_SSL cfg then ''https'' else ''http'') @ ''://'' @
                        AWS_S3_ENDPOINT_URL cfg,
      use_ssl = AWS_S3_USE_SSL cfg,
      aws_access_key_id = AWS_ACCESS_KEY_ID cfg,
      aws_secret_access_key = AWS_SECRET_ACCESS_KEY cfg\<rparr>"

text \<open>A configuration without credentials and without a bucket name.\<close>

definition bare_config :: s3_config where
  "bare_config =
     \<lparr>AWS_ACCESS_KEY_ID = [], AWS_SECRET_ACCESS_KEY = [],
      AWS_S3_BUCKET_NAME = [], AWS_S3_ENDPOINT_URL = ''s3.example.com'',
      AWS_S3_USE_SSL = True, AWS_DEFAULT_ACL = [],
      AWS_QUERYSTRING_AUTH = False, AWS_S3_CUSTOM_DOMAIN = []\<rparr>"

section \<open>The loop of collision resolution\<close>

lemma gnf_while_stop:
  "check_object_exists self k = Inr False \<Longrightarrow>
   gnf_while sf self stem suffix c f k log = Some (Inr f, log @ [k])"
  by (subst gnf_while.simps) simp

lemma gnf_while_raise:
  "check_object_exists self k = Inl e \<Longrightarrow>
   gnf_while sf self stem suffix c f k log = Some (Inl e, log @ [k])"
  by (subst gnf_while.simps) simp

lemma gnf_while_advance:
  "check_object_exists self k = Inr True \<Longrightarrow>
   get_name sf (candidate stem suffix (Suc c)) = Inr k' \<Longrightarrow>
   gnf_while sf self stem suffix c f k log =
   gnf_while sf self stem suffix (Suc c) (candidate stem suffix (Suc c)) k' (log @ [k])"
  by (subst gnf_while.simps) simp

lemma gnf_while_bad_candidate:
  "check_object_exists self k = Inr True \<Longrightarrow>
   get_name sf (candidate stem suffix (Suc c)) = Inl e \<Longrightarrow>
   gnf_while sf self stem suffix c f k log = Some (Inl e, log @ [k])"
  by (subst gnf_while.simps) simp

lemma nth_name_Suc:
  "nth_name x (Suc c) = candidate (path_stem (Path x)) (path_suffix (Path x)) (Suc c)"
  by (simp add: nth_name_def)

lemma taken_key: "taken sf self x i \<Longrightarrow> \<exists>k. nth_key sf x i = Inr k \<and> check_object_exists self k = Inr True"
  by (auto simp: taken_def split: sum.splits)

lemma absent_key: "absent sf self x i \<Longrightarrow> \<exists>k. nth_key sf x i = Inr k \<and> check_object_exists self k = Inr False"
  by (auto simp: absent_def split: sum.splits)

lemma gnf_while_first_absent:
  assumes "absent sf self x n" "\<forall>i. c \<le> i \<and> i < n \<longrightarrow> taken sf self x i" "c \<le> n"
    "nth_key sf x c = Inr k"
  shows "gnf_while sf self (path_stem (Path x)) (path_suffix (Path x)) c (nth_name x c) k log =
         Some (Inr (nth_name x n), log @ map (the_key sf x) [c..<Suc n])"
  using assms
proof (induction "n - c" arbitrary: c k log)
  case 0
  then have cn: "c = n" by simp
  with 0 have "check_object_exists self k = Inr False"
    by (auto dest: absent_key)
  moreover have "the_key sf x n = k" using 0 cn by (simp add: the_key_def)
  ultimately show ?case using cn by (simp add: gnf_while_stop)
next
  case (Suc d)
  then have lt: "c < n" by simp
  with Suc.prems have "taken sf self x c" by simp
  with Suc.prems have chk: "check_object_exists self k = Inr True"
    by (auto dest: taken_key)
  have "\<exists>k'. nth_key sf x (Suc c) = Inr k'"
  proof (cases "Suc c = n")
    case True
    with Suc.prems show ?thesis by (auto dest: absent_key)
  next
    case False
    with lt have "Suc c < n" by simp
    with Suc.prems have "taken sf self x (Suc c)" by simp
    then show ?thesis by (auto dest: taken_key)
  qed
  then obtain k' where k': "nth_key sf x (Suc c) = Inr k'" by blast
  then have g: "get_name sf (candidate (path_stem (Path x)) (path_suffix (Path x)) (Suc c)) = Inr k'"
    by (simp add: nth_key_def nth_name_Suc)
  have ih: "gnf_while sf self (path_stem (Path x)) (path_suffix (Path x)) (Suc c)
              (nth_name x (Suc c)) k' (log @ [k]) =
            Some (Inr (nth_name x n), (log @ [k]) @ map (the_key sf x) [Suc c..<Suc n])"
    using Suc.hyps(2) Suc.prems lt k' by (intro Suc.hyps(1)) auto
  have tk: "the_key sf x c = k" using Suc.prems by (simp add: the_key_def)
  have "[c..<Suc n] = c # [Suc c..<Suc n]" using lt by (simp add: upt_conv_Cons)
  then show ?case
    using gnf_while_advance[OF chk g, where f = "nth_name x c" and log = log] ih tk
    by (simp add: nth_name_Suc)
qed

lemma gnf_while_returns:
  assumes "absent sf self x n" "c \<le> n" "nth_key sf x c = Inr k"
  shows "\<exists>r. gnf_while sf self (path_stem (Path x)) (path_suffix (Path x)) c f k log = Some r"
  using assms
proof (induction "n - c" arbitrary: c k log f)
  case 0
  then have "check_object_exists self k = Inr False" by (auto dest: absent_key)
  then show ?case by (simp add: gnf_while_stop)
next
  case (Suc d)
  show ?case
  proof (cases "check_object_exists self k")
    case (Inl e)
    then show ?thesis by (simp add: gnf_while_raise)
  next
    case (Inr b)
    show ?thesis
    proof (cases b)
      case False
      with Inr show ?thesis by (simp add: gnf_while_stop)
    next
      case True
      with Inr have chk: "check_object_exists self k = Inr True" by simp
      show ?thesis
      proof (cases "get_name sf (candidate (path_stem (Path x)) (path_suffix (Path x)) (Suc c))")
        case (Inl e)
        with chk show ?thesis by (simp add: gnf_while_bad_candidate)
      next
        case (Inr k')
        then have "nth_key sf x (Suc c) = Inr k'" by (simp add: nth_key_def nth_name_Suc)
        moreover have "d = n - Suc c" "Suc c \<le> n" using Suc.hyps(2) by auto
        ultimately have "\<exists>r. gnf_while sf self (path_stem (Path x)) (path_suffix (Path x)) (Suc c)
             (candidate (path_stem (Path x)) (path_suffix (Path x)) (Suc c)) k' (log @ [k]) = Some r"
          using Suc.prems(1) by (intro Suc.hyps(1)) auto
        then show ?thesis using gnf_while_advance[OF chk Inr] by simp
      qed
    qed
  qed
qed

lemma gnf_while_some_not_taken:
  assumes run: "gnf_while sf self stem suffix c f k log = Some r"
  shows "\<forall>x. stem = path_stem (Path x) \<and> suffix = path_suffix (Path x) \<and> nth_key sf x c = Inr k
           \<longrightarrow> (\<exists>i\<ge>c. \<not> taken sf self x i)"
proof (rule gnf_while.raw_induct
    [where P = "\<lambda>sf self stem suffix c f k log r.
        \<forall>x. stem = path_stem (Path x) \<and> suffix = path_suffix (Path x) \<and> nth_key sf x c = Inr k
           \<longrightarrow> (\<exists>i\<ge>c. \<not> taken sf self x i)", OF _ run], goal_cases)
  case (1 gw sf self stem suffix c f k log r)
  show ?case
  proof (intro allI impI, elim conjE)
    fix x
    assume st: "stem = path_stem (Path x)" and su: "suffix = path_suffix (Path x)"
      and key: "nth_key sf x c = Inr k"
    show "\<exists>i\<ge>c. \<not> taken sf self x i"
    proof (cases "taken sf self x c")
      case False
      then show ?thesis by blast
    next
      case True
      with key have chk: "check_object_exists self k = Inr True" by (auto dest: taken_key)
      show ?thesis
      proof (cases "get_name sf (candidate stem suffix (Suc c))")
        case (Inl e)
        then have "\<not> taken sf self x (Suc c)"
          using st su by (simp add: taken_def nth_key_def nth_name_Suc)
        then show ?thesis using le_SucI by blast
      next
        case (Inr k')
        with chk 1(2) have "gw sf self stem suffix (Suc c) (candidate stem suffix (Suc c)) k' (log @ [k]) = Some r"
          by simp
        moreover have "nth_key sf x (Suc c) = Inr k'"
          using Inr st su by (simp add: nth_key_def nth_name_Suc)
        ultimately have "\<exists>i\<ge>Suc c. \<not> taken sf self x i" using 1(1) st su by blast
        then show ?thesis using Suc_leD by blast
      qed
    qed
  qed
qed

lemma gnf_while_result_shape:
  assumes run: "gnf_while sf self stem suffix c f k log = Some (Inr r, log')"
  shows "r = f \<or> (\<exists>i>c. r = candidate stem suffix i)"
proof -
  have "\<forall>r' log'. r = (Inr r', log') \<longrightarrow> (r' = f \<or> (\<exists>i>c. r' = candidate stem suffix i))"
    if "gnf_while sf self stem suffix c f k log = Some r" for r
  proof (rule gnf_while.raw_induct
    [where P = "\<lambda>sf self stem suffix c f k log r.
        \<forall>r' log'. r = (Inr r', log') \<longrightarrow> (r' = f \<or> (\<exists>i>c. r' = candidate stem suffix i))", OF _ that], goal_cases)
    case (1 gw sf self stem suffix c f k log r)
    show ?case
    proof (intro allI impI)
      fix r' log'
      assume r: "r = (Inr r', log')"
      show "r' = f \<or> (\<exists>i>c. r' = candidate stem suffix i)"
      proof (cases "check_object_exists self k")
        case (Inl e)
        with 1(2) r show ?thesis by simp
      next
        case (Inr b)
        show ?thesis
        proof (cases b)
          case False
          with Inr 1(2) r show ?thesis by simp
        next
          case True
          show ?thesis
          proof (cases "get_name sf (candidate stem suffix (Suc c))")
            case (Inl e)
            with True Inr 1(2) r show ?thesis by simp
          next
            case k': (Inr k')
            with True Inr 1(2) have "gw sf self stem suffix (Suc c) (candidate stem suffix (Suc c)) k' (log @ [k]) = Some r"
              by simp
            from 1(1)[OF this] r
            have "r' = candidate stem suffix (Suc c) \<or> (\<exists>i>Suc c. r' = candidate stem suffix i)"
              by blast
            then show ?thesis using Suc_lessD by blast
          qed
        qed
      qed
    qed
  qed
  with run show ?thesis by blast
qed

section \<open>Facts about path parsing and the decimal counter\<close>

lemma split_chr_nonempty: "split_chr c s \<noteq> []"
  by (induction s) (auto split: list.splits)

lemma split_chr_no_sep: "w \<in> set (split_chr c s) \<Longrightarrow> c \<notin> set w"
proof (induction s arbitrary: w)
  case Nil
  then show ?case by simp
next
  case (Cons x xs)
  then show ?case
    by (cases "split_chr c xs") (auto split: if_splits)
qed

lemma split_chr_without: "c \<notin> set s \<Longrightarrow> split_chr c s = [s]"
  by (induction s) auto

lemma segments_props: "w \<in> set (segments x) \<Longrightarrow> w \<noteq> [] \<and> w \<noteq> ''.'' \<and> sep \<notin> set w"
  by (auto simp: segments_def dest: split_chr_no_sep)

lemma segments_Cons_sep: "segments (sep # s) = segments s"
  by (simp add: segments_def)

lemma segments_dropWhile: "segments (dropWhile (\<lambda>c. c = sep) s) = segments s"
  by (induction s) (auto simp: segments_Cons_sep)

lemma segments_without:
  "sep \<notin> set s \<Longrightarrow> segments s = (if s \<noteq> [] \<and> s \<noteq> ''.'' then [s] else [])"
  by (simp add: segments_def split_chr_without)

lemma parsed_is_segments:
  "(if sep \<in> set rel
    then filter (\<lambda>x. x \<noteq> [] \<and> x \<noteq> ''.'') (split_chr sep rel)
    else (if rel \<noteq> [] \<and> rel \<noteq> ''.'' then [rel] else [])) = segments rel"
  by (auto simp: segments_without) (simp add: segments_def)

lemma root_Path_cases: "root (Path x) = [] \<or> root (Path x) = [sep] \<or> root (Path x) = [sep, sep]"
  by (auto simp: parse_parts_def splitroot_def Let_def)

lemma segments_Nil: "segments [] = []"
  by (simp add: segments_def)

lemma parts_Path:
  "parts (Path x) = (if root (Path x) \<noteq> [] then root (Path x) # segments x else segments x)"
proof (cases "x = []")
  case True
  then show ?thesis by (simp add: parse_parts_def segments_Nil)
next
  case False
  obtain rt rel where sr: "splitroot x = (rt, rel)" by (cases "splitroot x")
  then have "rel = x \<or> rel = dropWhile (\<lambda>c. c = sep) x"
    by (auto simp: splitroot_def Let_def split: if_splits)
  then have "segments rel = segments x" by (auto simp: segments_dropWhile)
  then show ?thesis
    using False sr by (simp add: parse_parts_def parsed_is_segments Let_def del: split_chr.simps)
qed

lemma path_name_Path:
  "path_name (Path x) = (if segments x = [] then [] else last (segments x))"
  by (simp add: path_name_def parts_Path)

lemma path_name_no_sep: "sep \<notin> set (path_name (Path x))"
proof (cases "segments x = []")
  case True
  then show ?thesis by (simp add: path_name_Path)
next
  case False
  then have "last (segments x) \<in> set (segments x)" by simp
  then have "sep \<notin> set (last (segments x))" by (rule segments_props [THEN conjunct2, THEN conjunct2])
  then show ?thesis using False by (simp add: path_name_Path)
qed

lemma path_stem_no_sep: "sep \<notin> set (path_stem (Path x))"
  using path_name_no_sep [of x] by (auto simp: path_stem_def Let_def dest: in_set_takeD)

lemma path_suffix_no_sep: "sep \<notin> set (path_suffix (Path x))"
  using path_name_no_sep [of x] by (auto simp: path_suffix_def Let_def dest: in_set_dropD)

lemma of_char_digit: "d < 10 \<Longrightarrow> (of_char (digit_char d) :: nat) = 48 + d"
  unfolding digit_char_def by (simp only: of_char_of) simp

lemma digit_char_neq:
  assumes "d < 10" and "(of_char c :: nat) < 48"
  shows "digit_char d \<noteq> c"
proof
  assume "digit_char d = c"
  then have "(of_char c :: nat) = 48 + d" using of_char_digit [OF assms(1)] by simp
  with assms(2) show False by simp
qed

lemma digit_char_neq_backslash:
  assumes "d < 10"
  shows "digit_char d \<noteq> CHR 0x5C"
proof
  assume "digit_char d = CHR 0x5C"
  then have "(of_char (CHR 0x5C) :: nat) = 48 + d" using of_char_digit [OF assms(1)] by simp
  moreover have "(of_char (CHR 0x5C) :: nat) = 92" by simp
  ultimately show False using assms by simp
qed

lemma digit_char_props:
  assumes d: "d < 10"
  shows "digit_char d \<noteq> sep \<and> \<not> unsafe_char (digit_char d) \<and> \<not> leading_junk (digit_char d)"
proof -
  have n: "(of_char (digit_char d) :: nat) = 48 + d" using d by (rule of_char_digit)
  have a: "digit_char d \<noteq> CHR ''/''" by (rule digit_char_neq [OF d]) simp
  have b: "digit_char d \<noteq> CHR ''.''" by (rule digit_char_neq [OF d]) simp
  have c: "digit_char d \<noteq> CHR ''-''" by (rule digit_char_neq [OF d]) simp
  have e: "digit_char d \<noteq> CHR 0x5C" by (rule digit_char_neq_backslash [OF d])
  have u: "\<not> unsafe_char (digit_char d)"
    unfolding unsafe_char_def Let_def n using d a e by simp
  show ?thesis using a b c u by (simp add: sep_def leading_junk_def)
qed

lemma str_nat_small: "n < 10 \<Longrightarrow> str_nat n = [digit_char n]"
  by (subst str_nat.simps) simp

lemma str_nat_large: "\<not> n < 10 \<Longrightarrow> str_nat n = str_nat (n div 10) @ [digit_char (n mod 10)]"
  by (subst str_nat.simps) simp

lemma str_nat_nonempty: "str_nat n \<noteq> []"
  by (subst str_nat.simps) simp

lemma underscore_not_sep: "CHR ''_'' \<noteq> sep"
  by (simp add: sep_def)

lemma str_nat_step:
  assumes a: "\<not> n < 10" and b: "c \<in> set (str_nat n)"
  shows "c \<in> set (str_nat (n div 10)) \<or> c = digit_char (n mod 10)"
proof -
  have "str_nat n = str_nat (n div 10) @ [digit_char (n mod 10)]" using a by (rule str_nat_large)
  then have "set (str_nat n) = set (str_nat (n div 10)) \<union> {digit_char (n mod 10)}"
    by (metis set_append list.simps(15) empty_set)
  with b show ?thesis by blast
qed

lemma str_nat_chars:
  "c \<in> set (str_nat n) \<Longrightarrow> c \<noteq> sep \<and> \<not> unsafe_char c \<and> \<not> leading_junk c"
proof (induction n arbitrary: c rule: str_nat.induct)
  case (1 n)
  show ?case
  proof (cases "n < 10")
    case True
    have "c \<in> set [digit_char n]" using True "1.prems" by (simp only: str_nat_small)
    then have c: "c = digit_char n" by simp
    show ?thesis unfolding c by (rule digit_char_props [OF True])
  next
    case False
    from str_nat_step [OF False "1.prems"]
    show ?thesis
    proof
      assume m: "c \<in> set (str_nat (n div 10))"
      show ?thesis by (rule "1.IH" [OF False m])
    next
      assume c: "c = digit_char (n mod 10)"
      have lt: "n mod 10 < 10" by simp
      show ?thesis unfolding c by (rule digit_char_props [OF lt])
    qed
  qed
qed

lemma candidate_no_sep:
  assumes "sep \<notin> set stem" and "sep \<notin> set suffix"
  shows "sep \<notin> set (candidate stem suffix n)"
proof -
  have "sep \<notin> set (str_nat n)" using str_nat_chars [of sep n] by blast
  then show ?thesis using assms underscore_not_sep by (simp add: candidate_def)
qed

section \<open>Collision resolution: the claims\<close>

text \<open>
  C5. When the existence check reports false for the normalised key of the input,
  \<open>generate_new_filename\<close> returns the input unchanged, and the one key it has
  checked is that key.
\<close>

theorem generate_new_filename_unchanged:
  "get_name sf x = Inr k \<Longrightarrow> check_object_exists self k = Inr False \<Longrightarrow>
   generate_new_filename sf self x = Some (Inr x, [k])"
  by (simp add: generate_new_filename_def gnf_while_stop)

theorem generate_new_filename_unchanged_witness:
  "get_name secure_filename ''uploads/report.pdf'' = Inr ''uploads/report.pdf'' \<and>
   check_object_exists (demo_storage [''a.png''] [] (ClientError ''500'')) ''uploads/report.pdf'' = Inr False \<and>
   generate_new_filename secure_filename (demo_storage [''a.png''] [] (ClientError ''500''))
     ''uploads/report.pdf'' = Some (Inr ''uploads/report.pdf'', [''uploads/report.pdf''])"
proof -
  have g: "get_name secure_filename ''uploads/report.pdf'' = Inr ''uploads/report.pdf''"
    by code_simp
  have c: "check_object_exists (demo_storage [''a.png''] [] (ClientError ''500'')) ''uploads/report.pdf'' = Inr False"
    by code_simp
  from generate_new_filename_unchanged [OF g c] g c show ?thesis by simp
qed

text \<open>
  C1. When the existence check reports the keys of rounds \<open>0, ..., n - 1\<close> as
  existing and the key of round \<open>n\<close> as absent, \<open>generate_new_filename\<close> returns the
  name of round \<open>n\<close>: the input for \<open>n = 0\<close>, and otherwise the candidate made of the
  stem, an underscore, the counter \<open>n\<close> and the suffix. The counter starts at 1 and
  grows by 1, and the keys checked are those of the rounds \<open>0, ..., n\<close> in order. With
  objects under \<open>a.png\<close> and \<open>a_1.png\<close> only, the result for \<open>a.png\<close> is \<open>a_2.png\<close>.
\<close>

theorem generate_new_filename_first_absent:
  assumes "absent sf self x n" and "\<forall>i<n. taken sf self x i"
  shows "generate_new_filename sf self x =
           Some (Inr (if n = 0 then x
                      else path_stem (Path x) @ ''_'' @ str_nat n @ path_suffix (Path x)),
                 map (the_key sf x) [0..<Suc n])"
proof -
  have "\<exists>k. nth_key sf x 0 = Inr k"
  proof (cases n)
    case 0
    with assms(1) show ?thesis by (auto dest: absent_key)
  next
    case (Suc m)
    with assms(2) have "taken sf self x 0" by simp
    then show ?thesis by (auto dest: taken_key)
  qed
  then obtain k where k: "nth_key sf x 0 = Inr k" by blast
  then have g: "get_name sf x = Inr k" by (simp add: nth_key_def nth_name_def)
  have "gnf_while sf self (path_stem (Path x)) (path_suffix (Path x)) 0 (nth_name x 0) k [] =
        Some (Inr (nth_name x n), [] @ map (the_key sf x) [0..<Suc n])"
    using assms k by (intro gnf_while_first_absent) auto
  then show ?thesis
    using g by (simp add: generate_new_filename_def nth_name_def candidate_def)
qed

lemma taken_below_2: "taken sf self x 0 \<Longrightarrow> taken sf self x (Suc 0) \<Longrightarrow> \<forall>i<2. taken sf self x i"
  by (auto simp: less_Suc_eq numeral_2_eq_2)

theorem generate_new_filename_first_absent_witness:
  "generate_new_filename secure_filename
     (demo_storage [''a.png'', ''a_1.png''] [] (ClientError ''500'')) ''a.png'' =
   Some (Inr ''a_2.png'', [''a.png'', ''a_1.png'', ''a_2.png''])"
proof -
  let ?self = "demo_storage [''a.png'', ''a_1.png''] [] (ClientError ''500'')"
  have a: "absent secure_filename ?self ''a.png'' 2" by code_simp
  have t0: "taken secure_filename ?self ''a.png'' 0" by code_simp
  have t1: "taken secure_filename ?self ''a.png'' (Suc 0)" by code_simp
  have n: "path_stem (Path ''a.png'') @ ''_'' @ str_nat 2 @ path_suffix (Path ''a.png'') = ''a_2.png''"
    by code_simp
  have l: "map (the_key secure_filename ''a.png'') [0..<Suc 2] = [''a.png'', ''a_1.png'', ''a_2.png'']"
    by code_simp
  from generate_new_filename_first_absent [OF a taken_below_2 [OF t0 t1]] n l
  show ?thesis by simp
qed

lemma check_forbidden: "check_object_exists forbidden_storage k = Inr True"
  by (simp add: check_object_exists_def head_object_def forbidden_storage_def
      s3_config.extend_def s3_storage.fields_def demo_config_def)

lemma secure_filename_id:
  assumes "safe_chars s" and "s \<noteq> []" and "\<not> leading_junk (hd s)"
  shows "secure_filename s = s"
proof -
  have "filter (\<lambda>c. \<not> unsafe_char c) s = s"
    using assms(1) by (simp add: safe_chars_def list_all_iff)
  moreover have "dropWhile leading_junk s = s"
    using assms(2,3) by (cases s) simp_all
  ultimately show ?thesis by (simp add: secure_filename_def)
qed

lemma Path_simple:
  assumes "sep \<notin> set s" and "s \<noteq> []" and "s \<noteq> ''.''"
  shows "Path s = \<lparr>root = [], parts = [s]\<rparr>"
  using assms by (cases s) (auto simp: parse_parts_def splitroot_def)

lemma get_name_simple:
  assumes "sep \<notin> set s" and "s \<noteq> []" and "s \<noteq> ''.''" and "sf s = s"
  shows "get_name sf s = Inr s"
proof -
  have "last s \<in> set s" using assms(2) by simp
  with assms(1) have "last s \<noteq> sep" by metis
  then show ?thesis
    using assms
    by (simp add: get_name_def Path_simple path_name_def with_name_def path_str_def Let_def)
qed

lemma demo_candidate_key:
  "get_name secure_filename (candidate ''a'' ''.png'' i) = Inr (candidate ''a'' ''.png'' i)"
proof (rule get_name_simple)
  show "sep \<notin> set (candidate ''a'' ''.png'' i)"
    by (rule candidate_no_sep) (simp_all add: sep_def)
  show "candidate ''a'' ''.png'' i \<noteq> []" by (simp add: candidate_def)
  show "candidate ''a'' ''.png'' i \<noteq> ''.''" by (simp add: candidate_def)
  have d: "safe_chars (str_nat i)"
    using str_nat_chars [of _ i] by (auto simp: safe_chars_def list_all_iff)
  have "safe_chars ''a_''" "safe_chars ''.png''" by code_simp+
  with d have "safe_chars (candidate ''a'' ''.png'' i)"
    by (simp add: candidate_def safe_chars_def)
  moreover have "\<not> leading_junk (hd (candidate ''a'' ''.png'' i))"
    by (simp add: candidate_def leading_junk_def)
  ultimately show "secure_filename (candidate ''a'' ''.png'' i) = candidate ''a'' ''.png'' i"
    by (intro secure_filename_id) (simp_all add: candidate_def)
qed

lemma demo_all_taken: "taken secure_filename forbidden_storage ''a.png'' i"
proof (cases i)
  case 0
  have "get_name secure_filename ''a.png'' = Inr ''a.png''" by code_simp
  then show ?thesis using 0 by (simp add: taken_def nth_key_def nth_name_def check_forbidden)
next
  case (Suc j)
  have "path_stem (Path ''a.png'') = ''a''" "path_suffix (Path ''a.png'') = ''.png''"
    by code_simp+
  then show ?thesis
    using Suc by (simp add: taken_def nth_key_def nth_name_def demo_candidate_key check_forbidden)
qed

text \<open>
  C8. \<open>generate_new_filename\<close> returns whenever the existence check reports some
  round as absent: the input in round 0 or a candidate with counter at least 1. When
  the existence check reports every round as existing, the loop never ends: no result
  and no exception, with a counter that exceeds every bound.
\<close>

theorem generate_new_filename_termination:
  "(absent sf self x n \<longrightarrow> (\<exists>r. generate_new_filename sf self x = Some r)) \<and>
   ((\<forall>i. taken sf self x i) \<longrightarrow> generate_new_filename sf self x = None)"
proof (intro conjI impI)
  assume a: "absent sf self x n"
  show "\<exists>r. generate_new_filename sf self x = Some r"
  proof (cases "get_name sf x")
    case (Inl e)
    then show ?thesis by (simp add: generate_new_filename_def)
  next
    case (Inr k)
    then have "nth_key sf x 0 = Inr k" by (simp add: nth_key_def nth_name_def)
    from gnf_while_returns [OF a _ this, of x "[]"] Inr
    show ?thesis by (simp add: generate_new_filename_def)
  qed
next
  assume t: "\<forall>i. taken sf self x i"
  then have "taken sf self x 0" by blast
  then obtain k where k: "nth_key sf x 0 = Inr k" by (auto dest: taken_key)
  then have g: "get_name sf x = Inr k" by (simp add: nth_key_def nth_name_def)
  show "generate_new_filename sf self x = None"
  proof (rule ccontr)
    assume "generate_new_filename sf self x \<noteq> None"
    then obtain r where
      "gnf_while sf self (path_stem (Path x)) (path_suffix (Path x)) 0 x k [] = Some r"
      using g by (auto simp: generate_new_filename_def)
    from gnf_while_some_not_taken [OF this] k have "\<exists>i\<ge>0. \<not> taken sf self x i" by blast
    with t show False by blast
  qed
qed

theorem generate_new_filename_termination_witness:
  "absent secure_filename (demo_storage [''a.png''] [] (ClientError ''500'')) ''a.png'' 1 \<and>
   (\<exists>r. generate_new_filename secure_filename
           (demo_storage [''a.png''] [] (ClientError ''500'')) ''a.png'' = Some r) \<and>
   (\<forall>i. taken secure_filename forbidden_storage ''a.png'' i) \<and>
   generate_new_filename secure_filename forbidden_storage ''a.png'' = None"
proof -
  have a: "absent secure_filename (demo_storage [''a.png''] [] (ClientError ''500'')) ''a.png'' 1"
    by code_simp
  have t: "\<forall>i. taken secure_filename forbidden_storage ''a.png'' i"
    using demo_all_taken by blast
  from generate_new_filename_termination
         [of secure_filename "demo_storage [''a.png''] [] (ClientError ''500'')" "''a.png''" 1]
       generate_new_filename_termination [of secure_filename forbidden_storage "''a.png''"]
       a t
  show ?thesis by blast
qed

text \<open>
  C10. When the existence check reports the key of the input as existing, every name
  that \<open>generate_new_filename\<close> returns is a candidate built from the stem and the
  suffix of the last path component, with a counter of at least 1; it contains no
  separator, so the directory prefix of the input is gone.
\<close>

theorem generate_new_filename_drops_directory:
  assumes "taken sf self x 0" and "generate_new_filename sf self x = Some (Inr r, log)"
  shows "(\<exists>n>0. r = candidate (path_stem (Path x)) (path_suffix (Path x)) n) \<and> sep \<notin> set r"
proof -
  let ?stem = "path_stem (Path x)" and ?suffix = "path_suffix (Path x)"
  from assms(1) obtain k where k: "nth_key sf x 0 = Inr k"
    and chk: "check_object_exists self k = Inr True" by (auto dest: taken_key)
  from k have g: "get_name sf x = Inr k" by (simp add: nth_key_def nth_name_def)
  with assms(2) have run: "gnf_while sf self ?stem ?suffix 0 x k [] = Some (Inr r, log)"
    by (simp add: generate_new_filename_def)
  have "\<exists>n>0. r = candidate ?stem ?suffix n"
  proof (cases "get_name sf (candidate ?stem ?suffix (Suc 0))")
    case (Inl e)
    from gnf_while_bad_candidate [OF chk Inl, of x "[]"] run show ?thesis by simp
  next
    case (Inr k')
    from gnf_while_advance [OF chk Inr, of x "[]"] run
    have "gnf_while sf self ?stem ?suffix (Suc 0) (candidate ?stem ?suffix (Suc 0)) k' ([] @ [k])
            = Some (Inr r, log)" by simp
    from gnf_while_result_shape [OF this]
    show ?thesis by (metis Suc_lessD zero_less_Suc)
  qed
  moreover have "sep \<notin> set (candidate ?stem ?suffix n)" for n
    by (rule candidate_no_sep [OF path_stem_no_sep path_suffix_no_sep])
  ultimately show ?thesis by blast
qed

theorem generate_new_filename_drops_directory_witness:
  "taken secure_filename (demo_storage [''uploads/a.png''] [] (ClientError ''500''))
     ''uploads/a.png'' 0 \<and>
   generate_new_filename secure_filename (demo_storage [''uploads/a.png''] [] (ClientError ''500''))
     ''uploads/a.png'' = Some (Inr ''a_1.png'', [''uploads/a.png'', ''a_1.png'']) \<and>
   sep \<notin> set ''a_1.png''"
proof -
  let ?self = "demo_storage [''uploads/a.png''] [] (ClientError ''500'')"
  have t: "taken secure_filename ?self ''uploads/a.png'' 0" by code_simp
  have r: "generate_new_filename secure_filename ?self ''uploads/a.png'' =
             Some (Inr ''a_1.png'', [''uploads/a.png'', ''a_1.png''])" by code_simp
  from generate_new_filename_drops_directory [OF t r] t r show ?thesis by blast
qed

lemma check_object_exists_raises:
  "check_object_exists self k = Inl e \<longleftrightarrow>
     head_object (s3 self) (AWS_S3_BUCKET_NAME self) k = Inl e \<and> (\<forall>code. e \<noteq> ClientError code)"
  by (auto simp: check_object_exists_def split: sum.splits exn.splits if_splits)

lemma gnf_while_run:
  assumes "\<forall>i. c \<le> i \<and> i < n \<longrightarrow> taken sf self x i" "c \<le> n"
    "nth_key sf x c = Inr k" "nth_key sf x n = Inr kn"
  shows "gnf_while sf self (path_stem (Path x)) (path_suffix (Path x)) c (nth_name x c) k log =
         gnf_while sf self (path_stem (Path x)) (path_suffix (Path x)) n (nth_name x n) kn
           (log @ map (the_key sf x) [c..<n])"
  using assms
proof (induction "n - c" arbitrary: c k log)
  case 0
  then show ?case by simp
next
  case (Suc d)
  then have lt: "c < n" by simp
  with Suc.prems have "taken sf self x c" by simp
  with Suc.prems have chk: "check_object_exists self k = Inr True"
    by (auto dest: taken_key)
  have "\<exists>k'. nth_key sf x (Suc c) = Inr k'"
  proof (cases "Suc c = n")
    case True
    with Suc.prems show ?thesis by simp
  next
    case False
    with lt have "Suc c < n" by simp
    with Suc.prems have "taken sf self x (Suc c)" by simp
    then show ?thesis by (auto dest: taken_key)
  qed
  then obtain k' where k': "nth_key sf x (Suc c) = Inr k'" by blast
  then have g: "get_name sf (candidate (path_stem (Path x)) (path_suffix (Path x)) (Suc c)) = Inr k'"
    by (simp add: nth_key_def nth_name_Suc)
  have ih: "gnf_while sf self (path_stem (Path x)) (path_suffix (Path x)) (Suc c)
              (nth_name x (Suc c)) k' (log @ [k]) =
            gnf_while sf self (path_stem (Path x)) (path_suffix (Path x)) n (nth_name x n) kn
              ((log @ [k]) @ map (the_key sf x) [Suc c..<n])"
    using Suc.hyps(2) Suc.prems lt k' by (intro Suc.hyps(1)) auto
  have tk: "the_key sf x c = k" using Suc.prems by (simp add: the_key_def)
  have "[c..<n] = c # [Suc c..<n]" using lt by (simp add: upt_conv_Cons)
  then show ?case
    using gnf_while_advance[OF chk g, where f = "nth_name x c" and log = log] ih tk
    by (simp add: nth_name_Suc)
qed

text \<open>
  C9. A client error of \<open>head_object\<close> with a code other than 404 makes
  \<open>_check_object_exists\<close> return true, and the loop of \<open>generate_new_filename\<close>
  goes on to the next candidate as it does for an existing object: the error does not
  reach the caller.
\<close>

theorem client_error_counts_as_existing:
  assumes "head_object (s3 self) (AWS_S3_BUCKET_NAME self) k = Inl (ClientError code)"
    and "code \<noteq> ''404''"
  shows "check_object_exists self k = Inr True \<and>
         gnf_while sf self stem suffix c f k log =
           (case get_name sf (candidate stem suffix (Suc c)) of
              Inl e \<Rightarrow> Some (Inl e, log @ [k])
            | Inr k' \<Rightarrow>
                gnf_while sf self stem suffix (Suc c) (candidate stem suffix (Suc c)) k'
                  (log @ [k]))"
proof -
  have chk: "check_object_exists self k = Inr True"
    using assms by (simp add: check_object_exists_def)
  show ?thesis
  proof (cases "get_name sf (candidate stem suffix (Suc c))")
    case (Inl e)
    with chk show ?thesis by (simp add: gnf_while_bad_candidate)
  next
    case (Inr k')
    with chk show ?thesis by (simp add: gnf_while_advance)
  qed
qed

theorem client_error_counts_as_existing_witness:
  "head_object (s3 (demo_storage [] [''report.pdf''] (ClientError ''500'')))
     (AWS_S3_BUCKET_NAME (demo_storage [] [''report.pdf''] (ClientError ''500'')))
     ''report.pdf'' = Inl (ClientError ''500'') \<and>
   ''500'' \<noteq> ''404'' \<and>
   check_object_exists (demo_storage [] [''report.pdf''] (ClientError ''500'')) ''report.pdf''
     = Inr True \<and>
   generate_new_filename secure_filename (demo_storage [] [''report.pdf''] (ClientError ''500''))
     ''report.pdf'' = Some (Inr ''report_1.pdf'', [''report.pdf'', ''report_1.pdf''])"
proof -
  let ?self = "demo_storage [] [''report.pdf''] (ClientError ''500'')"
  have h: "head_object (s3 ?self) (AWS_S3_BUCKET_NAME ?self) ''report.pdf'' = Inl (ClientError ''500'')"
    by code_simp
  have n: "''500'' \<noteq> ''404''" by simp
  have r: "generate_new_filename secure_filename ?self ''report.pdf'' =
             Some (Inr ''report_1.pdf'', [''report.pdf'', ''report_1.pdf''])" by code_simp
  from client_error_counts_as_existing [OF h n] h n r show ?thesis by blast
qed

text \<open>
  What does propagate. \<open>generate_new_filename\<close> has no handler: when
  \<open>_check_object_exists\<close> raises in round \<open>n\<close>, after the rounds before it were
  reported as existing, the exception reaches the caller, and the key of round \<open>n\<close>
  has been checked once and last. \<open>_check_object_exists\<close> raises exactly the
  exceptions of \<open>head_object\<close> that are not a \<open>ClientError\<close>, as \<open>get_size\<close>
  raises every exception of \<open>head_object\<close>.
\<close>

theorem check_failure_propagates:
  assumes "\<forall>i<n. taken sf self x i" and "nth_key sf x n = Inr k"
    and "head_object (s3 self) (AWS_S3_BUCKET_NAME self) k = Inl e"
    and "\<forall>code. e \<noteq> ClientError code"
  shows "check_object_exists self k = Inl e \<and>
         generate_new_filename sf self x = Some (Inl e, map (the_key sf x) [0..<n] @ [k])"
proof -
  have chk: "check_object_exists self k = Inl e"
    using assms(3,4) by (simp add: check_object_exists_raises)
  have "\<exists>k0. nth_key sf x 0 = Inr k0"
  proof (cases n)
    case 0
    with assms(2) show ?thesis by simp
  next
    case (Suc m)
    with assms(1) have "taken sf self x 0" by simp
    then show ?thesis by (auto dest: taken_key)
  qed
  then obtain k0 where k0: "nth_key sf x 0 = Inr k0" by blast
  then have g: "get_name sf x = Inr k0" by (simp add: nth_key_def nth_name_def)
  have "gnf_while sf self (path_stem (Path x)) (path_suffix (Path x)) 0 (nth_name x 0) k0 [] =
        gnf_while sf self (path_stem (Path x)) (path_suffix (Path x)) n (nth_name x n) k
          ([] @ map (the_key sf x) [0..<n])"
    using assms(1,2) k0 by (intro gnf_while_run) auto
  then show ?thesis
    using g chk by (simp add: generate_new_filename_def nth_name_def gnf_while_raise)
qed

theorem check_failure_propagates_witness:
  "generate_new_filename secure_filename
     (demo_storage [''a.png''] [''a_1.png''] (TransportFailure ''timed out'')) ''a.png'' =
   Some (Inl (TransportFailure ''timed out''), [''a.png'', ''a_1.png''])"
proof -
  let ?self = "demo_storage [''a.png''] [''a_1.png''] (TransportFailure ''timed out'')"
  have t: "\<forall>i<1. taken secure_filename ?self ''a.png'' i"
  proof -
    have "taken secure_filename ?self ''a.png'' 0" by code_simp
    then show ?thesis by simp
  qed
  have k: "nth_key secure_filename ''a.png'' 1 = Inr ''a_1.png''" by code_simp
  have h: "head_object (s3 ?self) (AWS_S3_BUCKET_NAME ?self) ''a_1.png'' =
             Inl (TransportFailure ''timed out'')" by code_simp
  have e: "\<forall>code. TransportFailure ''timed out'' \<noteq> ClientError code" by simp
  have l: "map (the_key secure_filename ''a.png'') [0..<1] = [''a.png'']" by code_simp
  from check_failure_propagates [OF t k h e] l show ?thesis by simp
qed

text \<open>
  C3. A failure of the existence check that is not a confirmed not-found should reach
  the caller of \<open>generate_new_filename\<close>. The code does not do so for an
  authorisation failure, which is a \<open>ClientError\<close> with code 403: the handler of
  \<open>_check_object_exists\<close> tests for 404 and has no \<open>raise\<close> for the other codes.
  With \<open>head_object\<close> answering 403 for the key \<open>a.png\<close>, no exception reaches the
  caller; the name counts as taken and \<open>a_1.png\<close> is returned.
\<close>

theorem auth_failure_not_propagated:
  "head_object (s3 (demo_storage [] [''a.png''] (ClientError ''403'')))
     (AWS_S3_BUCKET_NAME (demo_storage [] [''a.png''] (ClientError ''403''))) ''a.png'' =
     Inl (ClientError ''403'') \<and>
   generate_new_filename secure_filename (demo_storage [] [''a.png''] (ClientError ''403''))
     ''a.png'' = Some (Inr ''a_1.png'', [''a.png'', ''a_1.png''])"
  by code_simp

section \<open>Construction\<close>

text \<open>
  C4, as the code has it. \<open>__init__\<close> raises \<open>AssertionError\<close> when \<open>boto3\<close> is not
  installed and when the endpoint starts with \<open>http\<close>. Otherwise it raises what the
  client factory raises, and returns the instance when the factory returns. The
  factory gets the URL, the SSL flag and the two credential strings; the bucket name
  is not among its arguments, and nothing else is checked.
\<close>

theorem init_failure_cases:
  "(boto3 = None \<longrightarrow>
      S3Storage_init boto3 cfg = Inl (AssertionError ''boto3 is not installed'')) \<and>
   (boto3 = Some client \<and> startswith (AWS_S3_ENDPOINT_URL cfg) ''http'' \<longrightarrow>
      S3Storage_init boto3 cfg = Inl (AssertionError ''URL should not contain protocol'')) \<and>
   (boto3 = Some client \<and> \<not> startswith (AWS_S3_ENDPOINT_URL cfg) ''http'' \<longrightarrow>
      (case client (client_args_of cfg) of
         Inl e \<Rightarrow> S3Storage_init boto3 cfg = Inl e
       | Inr c \<Rightarrow>
           S3Storage_init boto3 cfg =
             Inr (s3_config.extend cfg
                    (s3_storage.fields (if AWS_S3_USE_SSL cfg then ''https'' else ''http'')
                       (endpoint_url (client_args_of cfg)) c)))) \<and>
   client_args_of (cfg\<lparr>AWS_S3_BUCKET_NAME := b\<rparr>) = client_args_of cfg"
  by (auto simp: S3Storage_init_def client_args_of_def Let_def split: sum.splits)

theorem init_failure_cases_witness:
  "S3Storage_init None demo_config = Inl (AssertionError ''boto3 is not installed'') \<and>
   startswith ''https://s3.example.com'' ''http'' \<and>
   S3Storage_init (Some demo_client) (demo_config\<lparr>AWS_S3_ENDPOINT_URL := ''https://s3.example.com''\<rparr>)
     = Inl (AssertionError ''URL should not contain protocol'') \<and>
   \<not> startswith (AWS_S3_ENDPOINT_URL demo_config) ''http'' \<and>
   S3Storage_init (Some demo_client) demo_config = Inr (demo_storage [] [] (ClientError ''500''))"
proof -
  have s: "startswith (AWS_S3_ENDPOINT_URL (demo_config\<lparr>AWS_S3_ENDPOINT_URL := ''https://s3.example.com''\<rparr>)) ''http''"
    by code_simp
  have n: "\<not> startswith (AWS_S3_ENDPOINT_URL demo_config) ''http''" by code_simp
  have c: "demo_client (client_args_of demo_config) = Inr (demo_service [] [] (ClientError ''500''))"
    by (simp add: demo_client_def)
  have u: "endpoint_url (client_args_of demo_config) = ''https://s3.example.com''"
          "AWS_S3_USE_SSL demo_config"
    by (simp_all add: client_args_of_def demo_config_def)
  from init_failure_cases [of None demo_config demo_client]
  have a: "S3Storage_init None demo_config = Inl (AssertionError ''boto3 is not installed'')"
    by simp
  from init_failure_cases [of "Some demo_client" "demo_config\<lparr>AWS_S3_ENDPOINT_URL := ''https://s3.example.com''\<rparr>" demo_client] s
  have b: "S3Storage_init (Some demo_client) (demo_config\<lparr>AWS_S3_ENDPOINT_URL := ''https://s3.example.com''\<rparr>)
     = Inl (AssertionError ''URL should not contain protocol'')" by simp
  from init_failure_cases [of "Some demo_client" demo_config demo_client] n c u
  have d: "S3Storage_init (Some demo_client) demo_config = Inr (demo_storage [] [] (ClientError ''500''))"
    by (simp add: demo_storage_def)
  from a b d s n show ?thesis by simp
qed

text \<open>
  C4 as stated fails: with empty credentials and an empty bucket name, and a client
  factory that accepts its arguments, construction returns an instance.
\<close>

theorem init_accepts_missing_credentials:
  "\<not> isl (S3Storage_init (Some demo_client) bare_config) \<and>
   AWS_ACCESS_KEY_ID bare_config = [] \<and> AWS_SECRET_ACCESS_KEY bare_config = [] \<and>
   AWS_S3_BUCKET_NAME bare_config = []"
  by code_simp

section \<open>Writing\<close>

text \<open>
  C7. When \<open>get_name\<close> returns the key \<open>k\<close> and the service accepts the request,
  \<open>write\<close> stores the whole content of the file, whatever its read position was,
  under \<open>k\<close> in the configured bucket, with the content type guessed from \<open>k\<close>, or
  \<open>application/octet-stream\<close> when the guess is \<open>None\<close> or empty, and with the
  default ACL; what was stored under \<open>k\<close> before is replaced, no existence check is
  made, and \<open>k\<close> is returned.
\<close>

theorem write_uploads_under_key:
  assumes "get_name sf name = Inr k"
    and "failure (s3 self) (AWS_S3_BUCKET_NAME self, k) = None"
  shows "storage_write sf guess_type self file name =
           Inr (k, self\<lparr>s3 := (s3 self)\<lparr>objects := (objects (s3 self))
                  ((AWS_S3_BUCKET_NAME self, k) \<mapsto>
                     \<lparr>Body = content file,
                      ContentType =
                        (case guess_type k of
                           None \<Rightarrow> ''application/octet-stream''
                         | Some t \<Rightarrow> if t = [] then ''application/octet-stream'' else t),
                      ACL = AWS_DEFAULT_ACL self\<rparr>)\<rparr>\<rparr>)"
  using assms unfolding storage_write_def default_content_type_def
  by (simp add: upload_fileobj_def seek_def read_rest_def Let_def)

theorem write_uploads_under_key_witness:
  "get_name secure_filename ''uploads/a.png'' = Inr ''uploads/a.png'' \<and>
   failure (s3 (demo_storage [''uploads/a.png''] [] (ClientError ''500'')))
     (AWS_S3_BUCKET_NAME (demo_storage [''uploads/a.png''] [] (ClientError ''500'')),
      ''uploads/a.png'') = None \<and>
   (case storage_write secure_filename demo_guess_type
           (demo_storage [''uploads/a.png''] [] (ClientError ''500''))
           \<lparr>content = ''PNGDATA'', pos = 3\<rparr> ''uploads/a.png'' of
      Inl e \<Rightarrow> False
    | Inr (k, self') \<Rightarrow>
        k = ''uploads/a.png'' \<and>
        objects (s3 self') (''media'', ''uploads/a.png'') =
          Some \<lparr>Body = ''PNGDATA'', ContentType = ''image/png'', ACL = ''private''\<rparr>) \<and>
   (case storage_write secure_filename demo_guess_type
           (demo_storage [''uploads/a.png''] [] (ClientError ''500''))
           \<lparr>content = ''%PDF'', pos = 0\<rparr> ''notes.xyz'' of
      Inl e \<Rightarrow> False
    | Inr (k, self') \<Rightarrow>
        k = ''notes.xyz'' \<and>
        objects (s3 self') (''media'', ''notes.xyz'') =
          Some \<lparr>Body = ''%PDF'', ContentType = ''application/octet-stream'', ACL = ''private''\<rparr>)"
proof -
  let ?self = "demo_storage [''uploads/a.png''] [] (ClientError ''500'')"
  have g1: "get_name secure_filename ''uploads/a.png'' = Inr ''uploads/a.png''" by code_simp
  have f1: "failure (s3 ?self) (AWS_S3_BUCKET_NAME ?self, ''uploads/a.png'') = None" by code_simp
  have g2: "get_name secure_filename ''notes.xyz'' = Inr ''notes.xyz''" by code_simp
  have f2: "failure (s3 ?self) (AWS_S3_BUCKET_NAME ?self, ''notes.xyz'') = None" by code_simp
  have t1: "demo_guess_type ''uploads/a.png'' = Some ''image/png''" by code_simp
  have t2: "demo_guess_type ''notes.xyz'' = None" by code_simp
  have b: "AWS_S3_BUCKET_NAME ?self = ''media''" "AWS_DEFAULT_ACL ?self = ''private''"
    by code_simp+
  from write_uploads_under_key [OF g1 f1, of demo_guess_type "\<lparr>content = ''PNGDATA'', pos = 3\<rparr>"]
       write_uploads_under_key [OF g2 f2, of demo_guess_type "\<lparr>content = ''%PDF'', pos = 0\<rparr>"]
       g1 f1 t1 t2 b
  show ?thesis by simp
qed

section \<open>Normalisation\<close>

lemma split_chr_append_sep:
  "c \<notin> set p \<Longrightarrow> split_chr c (p @ c # s) = p # split_chr c s"
  by (induction p) auto

lemma split_join:
  "ps \<noteq> [] \<Longrightarrow> (\<forall>p\<in>set ps. c \<notin> set p) \<Longrightarrow> split_chr c (join_chr c ps) = ps"
proof (induction c ps rule: join_chr.induct)
  case (1 c)
  then show ?case by simp
next
  case (2 c p)
  then show ?case by (simp add: split_chr_without)
next
  case (3 c p q ps)
  then have "split_chr c (join_chr c (q # ps)) = q # ps" by simp
  moreover have "c \<notin> set p" using 3 by simp
  ultimately show ?case by (simp add: split_chr_append_sep del: split_chr.simps)
qed

lemma segments_wf: "list_all wf_seg (segments x)"
  using segments_props by (auto simp: list_all_iff wf_seg_def)

lemma segments_join:
  assumes "list_all wf_seg segs"
  shows "segments (join_chr sep segs) = segs"
proof (cases "segs = []")
  case True
  then show ?thesis by (simp add: segments_Nil)
next
  case False
  have "\<forall>p\<in>set segs. sep \<notin> set p" using assms by (auto simp: list_all_iff wf_seg_def)
  with False have "split_chr sep (join_chr sep segs) = segs" by (rule split_join)
  moreover have "filter (\<lambda>s. s \<noteq> [] \<and> s \<noteq> ''.'') segs = segs"
    using assms by (auto simp: list_all_iff wf_seg_def intro: filter_True)
  ultimately show ?thesis by (simp add: segments_def)
qed

lemma join_chr_hd:
  "segs \<noteq> [] \<Longrightarrow> hd segs \<noteq> [] \<Longrightarrow> join_chr c segs \<noteq> [] \<and> hd (join_chr c segs) = hd (hd segs)"
  by (induction c segs rule: join_chr.induct) auto

lemma join_chr_snoc_nonempty: "f \<noteq> [] \<Longrightarrow> join_chr c (ps @ [f]) \<noteq> []"
proof (induction c ps rule: join_chr.induct)
  case (1 c)
  then show ?case by simp
next
  case (2 c p)
  then show ?case by simp
next
  case (3 c p q ps)
  then show ?case by simp
qed

lemma root_Path_join:
  assumes "segs \<noteq> []" and "list_all wf_seg segs"
    and "rt = [] \<or> rt = [sep] \<or> rt = [sep, sep]"
  shows "root (Path (rt @ join_chr sep segs)) = rt"
proof -
  let ?s = "join_chr sep segs"
  have "hd segs \<in> set segs" using assms(1) by simp
  then have h: "hd segs \<noteq> []" "sep \<notin> set (hd segs)"
    using assms(2) by (auto simp: list_all_iff wf_seg_def)
  then have "hd (hd segs) \<in> set (hd segs)" by simp
  with h have "hd (hd segs) \<noteq> sep" by metis
  with join_chr_hd [OF assms(1) h(1), of sep]
  have s: "?s \<noteq> []" "hd ?s \<noteq> sep" by simp_all
  then have d: "dropWhile (\<lambda>c. c = sep) ?s = ?s" by (cases ?s) simp_all
  from assms(3) show ?thesis
  proof (elim disjE)
    assume "rt = []"
    then show ?thesis using s by (simp add: parse_parts_def splitroot_def)
  next
    assume "rt = [sep]"
    then show ?thesis using s d by (simp add: parse_parts_def splitroot_def Let_def)
  next
    assume "rt = [sep, sep]"
    then show ?thesis using s d by (simp add: parse_parts_def splitroot_def Let_def)
  qed
qed

lemma segments_root_append:
  assumes "rt = [] \<or> rt = [sep] \<or> rt = [sep, sep]"
  shows "segments (rt @ s) = segments s"
  using assms by (auto simp: segments_Cons_sep)

lemma with_name_Inr:
  "with_name p f = Inr q \<longleftrightarrow>
     path_name p \<noteq> [] \<and> valid_name f \<and> q = \<lparr>root = root p, parts = butlast (parts p) @ [f]\<rparr>"
  by (auto simp: with_name_def valid_name_def Let_def)

lemma path_str_with_name:
  assumes "segments x \<noteq> []" and "f \<noteq> []"
  shows "path_str \<lparr>root = root (Path x), parts = butlast (parts (Path x)) @ [f]\<rparr> =
         root (Path x) @ join_chr sep (dir_segments x @ [f])"
proof -
  have j: "join_chr sep (dir_segments x @ [f]) \<noteq> []"
    using assms(2) by (rule join_chr_snoc_nonempty)
  show ?thesis
  proof (cases "root (Path x) = []")
    case True
    then show ?thesis using j by (simp add: path_str_def parts_Path dir_segments_def)
  next
    case False
    then have "butlast (parts (Path x)) = root (Path x) # dir_segments x"
      using assms(1) by (simp add: parts_Path dir_segments_def)
    then show ?thesis using False by (simp add: path_str_def)
  qed
qed

lemma get_name_Inr:
  "get_name sf x = Inr k \<longleftrightarrow>
     segments x \<noteq> [] \<and> valid_name (sf (last (segments x))) \<and>
     k = root (Path x) @ join_chr sep (dir_segments x @ [sf (last (segments x))])"
proof (cases "segments x = []")
  case True
  then have "path_name (Path x) = []" by (simp add: path_name_Path)
  then show ?thesis using True by (simp add: get_name_def with_name_def)
next
  case False
  then have n: "path_name (Path x) = last (segments x)" by (simp add: path_name_Path)
  from False have "last (segments x) \<in> set (segments x)" by simp
  then have ne: "last (segments x) \<noteq> []" using segments_props by blast
  show ?thesis
  proof (cases "valid_name (sf (last (segments x)))")
    case v: True
    then have "sf (last (segments x)) \<noteq> []" by (simp add: valid_name_def)
    from path_str_with_name [OF False this] v False n ne
    show ?thesis by (auto simp: get_name_def with_name_def valid_name_def Let_def)
  next
    case v: False
    then show ?thesis using n ne False
      by (auto simp: get_name_def with_name_def valid_name_def Let_def)
  qed
qed

lemma valid_name_wf_seg: "wf_seg f \<Longrightarrow> valid_name f"
proof -
  assume w: "wf_seg f"
  then have a: "sep \<notin> set f" "f \<noteq> []" "f \<noteq> ''.''" by (simp_all add: wf_seg_def)
  then have "last f \<in> set f" by simp
  with a(1) have "last f \<noteq> sep" by metis
  moreover have "Path f = \<lparr>root = [], parts = [f]\<rparr>" using a by (rule Path_simple)
  ultimately show ?thesis using a by (simp add: valid_name_def)
qed

lemma key_segments:
  assumes "segments x \<noteq> []" and "wf_seg f"
  shows "segments (root (Path x) @ join_chr sep (dir_segments x @ [f])) = dir_segments x @ [f]"
    and "root (Path (root (Path x) @ join_chr sep (dir_segments x @ [f]))) = root (Path x)"
proof -
  have w: "list_all wf_seg (dir_segments x @ [f])"
    using segments_wf [of x] assms(2)
    by (auto simp: dir_segments_def list_all_iff dest: in_set_butlastD)
  show "segments (root (Path x) @ join_chr sep (dir_segments x @ [f])) = dir_segments x @ [f]"
    using root_Path_cases [of x] w by (simp add: segments_root_append segments_join)
  show "root (Path (root (Path x) @ join_chr sep (dir_segments x @ [f]))) = root (Path x)"
    using root_Path_cases [of x] w by (intro root_Path_join) simp_all
qed

lemma get_name_idem_generic:
  assumes idem: "\<And>s. sf (sf s) = sf s"
    and seg: "\<And>s. sf s \<noteq> [] \<Longrightarrow> wf_seg (sf s)"
  shows "(case get_name sf x of Inl e \<Rightarrow> Inl e | Inr k \<Rightarrow> get_name sf k) = get_name sf x"
proof (cases "get_name sf x")
  case (Inl e)
  then show ?thesis by simp
next
  case (Inr k)
  let ?f = "sf (last (segments x))"
  from Inr have s: "segments x \<noteq> []" and v: "valid_name ?f"
    and k: "k = root (Path x) @ join_chr sep (dir_segments x @ [?f])"
    by (simp_all add: get_name_Inr)
  from v have "?f \<noteq> []" by (simp add: valid_name_def)
  then have w: "wf_seg ?f" by (rule seg)
  from key_segments [OF s w] k
  have ks: "segments k = dir_segments x @ [?f]" and kr: "root (Path k) = root (Path x)"
    by simp_all
  then have "get_name sf k = Inr k"
    using v k idem by (simp add: get_name_Inr dir_segments_def)
  with Inr show ?thesis by simp
qed

lemma secure_filename_safe: "safe_chars (secure_filename s)"
  by (auto simp: safe_chars_def secure_filename_def list_all_iff dest: set_dropWhileD)

lemma unsafe_sep: "unsafe_char sep"
  by (simp add: unsafe_char_def sep_def)

lemma secure_filename_no_sep: "sep \<notin> set (secure_filename s)"
  using secure_filename_safe [of s] unsafe_sep by (auto simp: safe_chars_def list_all_iff)

lemma secure_filename_hd:
  "secure_filename s \<noteq> [] \<Longrightarrow> \<not> leading_junk (hd (secure_filename s))"
  unfolding secure_filename_def by (rule hd_dropWhile)

lemma secure_filename_idem: "secure_filename (secure_filename s) = secure_filename s"
proof (cases "secure_filename s = []")
  case True
  have "secure_filename [] = []" by (simp add: secure_filename_def)
  with True show ?thesis by simp
next
  case False
  then show ?thesis
    by (intro secure_filename_id secure_filename_safe secure_filename_hd)
qed

lemma secure_filename_not_dots:
  "secure_filename s \<noteq> ''.'' \<and> secure_filename s \<noteq> ''..''"
  using secure_filename_hd [of s] by (auto simp: leading_junk_def)

lemma secure_filename_wf_seg: "secure_filename s \<noteq> [] \<Longrightarrow> wf_seg (secure_filename s)"
  using secure_filename_no_sep [of s] secure_filename_not_dots [of s] by (simp add: wf_seg_def)

text \<open>
  C6. Normalisation is idempotent: applying \<open>get_name\<close> to the key it has returned
  returns that key again, and where \<open>get_name\<close> raises, the composition raises the
  same exception.
\<close>

theorem get_name_idempotent:
  "(case get_name secure_filename x of
      Inl e \<Rightarrow> Inl e
    | Inr k \<Rightarrow> get_name secure_filename k) = get_name secure_filename x"
  by (rule get_name_idem_generic [OF secure_filename_idem secure_filename_wf_seg])

theorem get_name_idempotent_witness:
  "get_name secure_filename ''docs//./.-hidden.txt'' = Inr ''docs/hidden.txt'' \<and>
   get_name secure_filename ''docs/hidden.txt'' = Inr ''docs/hidden.txt''"
proof -
  have g: "get_name secure_filename ''docs//./.-hidden.txt'' = Inr ''docs/hidden.txt''"
    by code_simp
  from get_name_idempotent [of "''docs//./.-hidden.txt''"] g show ?thesis by simp
qed

text \<open>
  C2, as the code has it. When \<open>get_name\<close> returns a key, the key has the root and
  the directory segments of the input, verbatim and unsanitised (path parsing has
  dropped the empty segments and the segments \<open>.\<close>), followed by the sanitised last
  segment; that leaf has no unsafe character and is neither empty nor \<open>.\<close> nor \<open>..\<close>.
\<close>

theorem get_name_sanitizes_leaf_only:
  assumes "get_name secure_filename x = Inr k"
  shows "k = root (Path x) @ join_chr sep (dir_segments x @ [secure_filename (last (segments x))]) \<and>
         root (Path k) = root (Path x) \<and>
         dir_segments k = dir_segments x \<and>
         last (segments k) = secure_filename (last (segments x)) \<and>
         safe_chars (last (segments k)) \<and>
         last (segments k) \<noteq> [] \<and> last (segments k) \<noteq> ''.'' \<and> last (segments k) \<noteq> ''..''"
proof -
  let ?f = "secure_filename (last (segments x))"
  from assms have s: "segments x \<noteq> []" and v: "valid_name ?f"
    and k: "k = root (Path x) @ join_chr sep (dir_segments x @ [?f])"
    by (simp_all add: get_name_Inr)
  from v have ne: "?f \<noteq> []" by (simp add: valid_name_def)
  then have w: "wf_seg ?f" by (rule secure_filename_wf_seg)
  from key_segments [OF s w] k
  have ks: "segments k = dir_segments x @ [?f]" and kr: "root (Path k) = root (Path x)"
    by simp_all
  from ks have "dir_segments k = dir_segments x" "last (segments k) = ?f"
    by (simp_all add: dir_segments_def)
  then show ?thesis
    using k kr ne secure_filename_safe [of "last (segments x)"]
      secure_filename_not_dots [of "last (segments x)"]
    by simp
qed

theorem get_name_sanitizes_leaf_only_witness:
  "get_name secure_filename ''/srv/../my files//./.-hidden.txt'' = Inr ''/srv/../my files/hidden.txt'' \<and>
   dir_segments ''/srv/../my files/hidden.txt'' = [''srv'', ''..'', ''my files''] \<and>
   dir_segments ''/srv/../my files//./.-hidden.txt'' = [''srv'', ''..'', ''my files''] \<and>
   last (segments ''/srv/../my files/hidden.txt'') = ''hidden.txt'' \<and>
   safe_chars ''hidden.txt''"
proof -
  have g: "get_name secure_filename ''/srv/../my files//./.-hidden.txt'' =
             Inr ''/srv/../my files/hidden.txt''" by code_simp
  have d: "dir_segments ''/srv/../my files//./.-hidden.txt'' = [''srv'', ''..'', ''my files'']"
    by code_simp
  have l: "secure_filename (last (segments ''/srv/../my files//./.-hidden.txt'')) = ''hidden.txt''"
    by code_simp
  from get_name_sanitizes_leaf_only [OF g]
  have a: "dir_segments ''/srv/../my files/hidden.txt'' =
             dir_segments ''/srv/../my files//./.-hidden.txt''"
    and b: "last (segments ''/srv/../my files/hidden.txt'') =
             secure_filename (last (segments ''/srv/../my files//./.-hidden.txt''))"
    and c: "safe_chars (last (segments ''/srv/../my files/hidden.txt''))"
    by blast+
  from a d have a': "dir_segments ''/srv/../my files/hidden.txt'' = [''srv'', ''..'', ''my files'']"
    by (simp only:)
  from b l have b': "last (segments ''/srv/../my files/hidden.txt'') = ''hidden.txt''"
    by (simp only:)
  from c b' have c': "safe_chars ''hidden.txt''" by (simp only:)
  from g a' d b' c' show ?thesis by blast
qed

text \<open>
  C2 as stated fails: a traversal segment in the directory prefix stays in the key.
\<close>

theorem get_name_keeps_traversal:
  "get_name secure_filename ''../secret/a.png'' = Inr ''../secret/a.png'' \<and>
   \<not> traversal_free ''../secret/a.png''"
  by code_simp

end
